theory Spec2Isabelle
  imports Main "HOL-Library.Multiset" "HOL-Library.Sublist"
begin

section \<open>Records, values and errors\<close>

text \<open>
  A record in memory (\<open>WithId<T>\<close> in the source) is a JavaScript object: a finite
  map from field names to values, one of which is the string field \<open>id\<close>.  Object
  spread \<open>{...a, ...b}\<close> is map override \<open>a ++ b\<close>, and deep equality of two records
  is equality of the maps.  Beside the values of JSON, a value in memory can be
  \<open>undefined\<close>, a non-finite number (\<open>NaN\<close>, \<open>Infinity\<close>) or a \<open>Date\<close>, which is
  carried with its ISO string: a validator can return these, and they do not
  survive the file.  Other values that JSON does not carry (functions, symbols,
  \<open>BigInt\<close>) are left out, and numbers are restricted to the integers.
\<close>

datatype jsval =
    JUndefined
  | JNull
  | JBool bool
  | JNum int
  | JNonFinite
  | JStr string
  | JDate string
  | JArr "jsval list"
  | JObj "(string \<times> jsval) list"

type_synonym item = "string \<rightharpoonup> jsval"

text \<open>The file holds JSON: its values, and its records.\<close>

datatype json =
    Json_null
  | Json_bool bool
  | Json_num int
  | Json_str string
  | Json_list "json list"
  | Json_object "(string \<times> json) list"

type_synonym json_item = "string \<rightharpoonup> json"

text \<open>The value that \<open>JSON.parse\<close> builds from a JSON value.\<close>

fun of_json :: "json \<Rightarrow> jsval" where
  "of_json Json_null = JNull"
| "of_json (Json_bool b) = JBool b"
| "of_json (Json_num n) = JNum n"
| "of_json (Json_str s) = JStr s"
| "of_json (Json_list js) = JArr (map of_json js)"
| "of_json (Json_object kvs) = JObj (map (\<lambda>(k, v). (k, of_json v)) kvs)"

text \<open>
  What \<open>JSON.stringify\<close> writes for a value: \<open>null\<close> for a non-finite number and
  for \<open>undefined\<close> inside an array, the ISO string for a \<open>Date\<close> (its \<open>toJSON\<close>); a
  property whose value is \<open>undefined\<close> is left out of its object.
\<close>

fun to_json :: "jsval \<Rightarrow> json" where
  "to_json JUndefined = Json_null"
| "to_json JNull = Json_null"
| "to_json (JBool b) = Json_bool b"
| "to_json (JNum n) = Json_num n"
| "to_json JNonFinite = Json_null"
| "to_json (JStr s) = Json_str s"
| "to_json (JDate s) = Json_str s"
| "to_json (JArr vs) = Json_list (map to_json vs)"
| "to_json (JObj kvs) =
     Json_object (map (\<lambda>(k, v). (k, to_json v)) (filter (\<lambda>(k, v). v \<noteq> JUndefined) kvs))"

definition stringify_item :: "item \<Rightarrow> json_item" where
  "stringify_item x =
     (\<lambda>k. case x k of None \<Rightarrow> None | Some JUndefined \<Rightarrow> None | Some v \<Rightarrow> Some (to_json v))"

definition parse_item :: "json_item \<Rightarrow> item" where
  "parse_item j = (\<lambda>k. map_option of_json (j k))"

text \<open>A value that comes back from the file as it was written.\<close>

definition json_safe :: "jsval \<Rightarrow> bool" where
  "json_safe v = (v \<noteq> JUndefined \<and> of_json (to_json v) = v)"

text \<open>A property read \<open>a[key]\<close>: \<open>undefined\<close> where the object has no such property.\<close>

definition field :: "item \<Rightarrow> string \<Rightarrow> jsval" where
  "field a key = (case a key of None \<Rightarrow> JUndefined | Some v \<Rightarrow> v)"

text \<open>
  The errors a call can be rejected with: the validator's error, a file system error
  with its \<open>code\<close> (\<open>ENOENT\<close>, \<open>EACCES\<close>, ...), and the \<open>SyntaxError\<close> of
  \<open>JSON.parse\<close>, which has no \<open>code\<close>.
\<close>

datatype js_error =
    ValidationError string
  | SystemError string
  | SyntaxError

fun code :: "js_error \<Rightarrow> string option" where
  "code (SystemError c) = Some c"
| "code (ValidationError m) = None"
| "code SyntaxError = None"

text \<open>The predicate \<open>(item) => item.id === id\<close> that the store passes to the array methods.\<close>

definition id_is :: "string \<Rightarrow> item \<Rightarrow> bool" where
  "id_is i x = (x ''id'' = Some (JStr i))"

section \<open>Array methods\<close>

text \<open>
  \<open>Array.prototype.slice(start, end)\<close> on integer arguments (a JavaScript \<open>number\<close>
  may be negative): a negative index counts from the end of the array, and both
  indices are clamped to the array.
\<close>

definition slice :: "int \<Rightarrow> int \<Rightarrow> 'a list \<Rightarrow> 'a list" where
  "slice start end' xs =
     (let len = int (length xs);
          k = (if start < 0 then max (len + start) 0 else min start len);
          final = (if end' < 0 then max (len + end') 0 else min end' len)
      in take (nat (final - k)) (drop (nat k) xs))"

text \<open>\<open>Array.prototype.findIndex\<close>: the index of the first match, \<open>-1\<close> when there is none.\<close>

fun findIndex :: "('a \<Rightarrow> bool) \<Rightarrow> 'a list \<Rightarrow> int" where
  "findIndex P [] = - 1"
| "findIndex P (x # xs) =
     (if P x then 0 else (let i = findIndex P xs in if i = - 1 then - 1 else i + 1))"

text \<open>
  \<open>Array.prototype.sort(comparefn)\<close> is the engine's, and a parameter \<open>engine\<close> of
  the model.  ECMAScript fixes its result where the comparison function is
  consistent on the elements: the result is then a rearrangement of the array in
  which no element stands behind one that compares greater, and elements that
  compare equal keep their order (the sort is stable since ECMAScript 2019).
  Elsewhere the order is the implementation's.
\<close>

definition stable_sorted :: "('a \<Rightarrow> 'a \<Rightarrow> int) \<Rightarrow> 'a list \<Rightarrow> 'a list \<Rightarrow> bool" where
  "stable_sorted comparefn xs ys =
     (mset ys = mset xs
      \<and> sorted_wrt (\<lambda>a b. comparefn a b \<le> 0) ys
      \<and> (\<forall>x \<in> set xs. filter (\<lambda>y. comparefn x y = 0) ys = filter (\<lambda>y. comparefn x y = 0) xs))"

section \<open>WriteLock\<close>

text \<open>
  The lock's two fields.  An entry of \<open>queue\<close> is the callback
  \<open>() => { this.locked = true; resolve(); }\<close> of one suspended \<open>acquire\<close> call; all
  entries run the same code and differ only in the promise they resolve, so an entry
  is represented by the name \<open>'p\<close> of that promise.
\<close>

record 'p WriteLock =
  locked :: bool
  queue :: "'p list"

definition new_WriteLock :: "'p WriteLock" where
  "new_WriteLock = \<lparr>locked = False, queue = []\<rparr>"

text \<open>
  What \<open>acquire\<close> hands back: a promise that is already fulfilled (the caller goes
  on), or the pending promise \<open>p\<close> (the caller is suspended until \<open>p\<close> is resolved).
\<close>

datatype 'p acquired = Granted | Waiting 'p

definition acquire :: "'p \<Rightarrow> 'p WriteLock \<Rightarrow> 'p acquired \<times> 'p WriteLock" where
  "acquire p l =
     (if \<not> locked l then (Granted, l\<lparr>locked := True\<rparr>)
      else (Waiting p, l\<lparr>queue := queue l @ [p]\<rparr>))"

text \<open>
  \<open>release\<close> returns nothing in the source; the model returns the promise that the
  shifted callback resolved, if there was one.
\<close>

definition release :: "'p WriteLock \<Rightarrow> 'p option \<times> 'p WriteLock" where
  "release l =
     (if length (queue l) > 0
      then (let next = hd (queue l); l' = l\<lparr>queue := tl (queue l)\<rparr>
            in (Some next, l'\<lparr>locked := True\<rparr>))
      else (None, l\<lparr>locked := False\<rparr>))"

text \<open>
  Executions of the lock.  JavaScript runs each call of \<open>acquire\<close> and \<open>release\<close> to
  its end before another starts, so an execution is a sequence of such calls.  The
  run records, beside the lock, the promises of all \<open>acquire\<close> calls in the order
  they arrived (\<open>arrivals\<close>), the promises that were granted the lock in the order of
  the grants (\<open>grants\<close>), and the callers that currently hold the lock (\<open>holders\<close>).
  As in \<open>writeFile\<close>, only a caller that holds the lock calls \<open>release\<close>.
\<close>

datatype 'p call = Acquire 'p | Release 'p

record 'p lock_run =
  lk :: "'p WriteLock"
  arrivals :: "'p list"
  grants :: "'p list"
  holders :: "'p list"

definition lock_init :: "'p lock_run" where
  "lock_init = \<lparr>lk = new_WriteLock, arrivals = [], grants = [], holders = []\<rparr>"

definition do_acquire :: "'p \<Rightarrow> 'p lock_run \<Rightarrow> 'p lock_run" where
  "do_acquire p s =
     (case acquire p (lk s) of
        (Granted, l') \<Rightarrow>
          s\<lparr>lk := l', arrivals := arrivals s @ [p], grants := grants s @ [p],
            holders := holders s @ [p]\<rparr>
      | (Waiting q, l') \<Rightarrow> s\<lparr>lk := l', arrivals := arrivals s @ [p]\<rparr>)"

definition do_release :: "'p \<Rightarrow> 'p lock_run \<Rightarrow> 'p lock_run" where
  "do_release p s =
     (case release (lk s) of
        (Some q, l') \<Rightarrow>
          s\<lparr>lk := l', grants := grants s @ [q], holders := remove1 p (holders s) @ [q]\<rparr>
      | (None, l') \<Rightarrow> s\<lparr>lk := l', holders := remove1 p (holders s)\<rparr>)"

inductive lock_step :: "'p lock_run \<Rightarrow> 'p call \<Rightarrow> 'p lock_run \<Rightarrow> bool" where
  step_acquire: "lock_step s (Acquire p) (do_acquire p s)"
| step_release: "p \<in> set (holders s) \<Longrightarrow> lock_step s (Release p) (do_release p s)"

code_pred lock_step .

text \<open>
  \<open>execution cs s\<close>: the steps of the calls \<open>cs\<close> (the latest call first) lead from
  the new lock to the state \<open>s\<close>.
\<close>

inductive execution :: "'p call list \<Rightarrow> 'p lock_run \<Rightarrow> bool" where
  execution_init: "execution [] lock_init"
| execution_step: "execution cs s \<Longrightarrow> lock_step s c s' \<Longrightarrow> execution (c # cs) s'"

code_pred execution .

text \<open>
  The invariant of the executions: the arrivals are the grants followed by the queue,
  at most one caller holds the lock, the lock is marked taken exactly when it is
  held, and callers wait only while it is taken.
\<close>

definition lock_inv :: "'p lock_run \<Rightarrow> bool" where
  "lock_inv s =
     (arrivals s = grants s @ queue (lk s)
      \<and> length (holders s) \<le> 1
      \<and> (locked (lk s) = (holders s \<noteq> []))
      \<and> (queue (lk s) \<noteq> [] \<longrightarrow> locked (lk s)))"

section \<open>QueryBuilder\<close>

record QueryBuilder =
  data :: "item list"

definition new_QueryBuilder :: "item list \<Rightarrow> QueryBuilder" where
  "new_QueryBuilder xs = \<lparr>data = xs\<rparr>"

definition filter_qb :: "(item \<Rightarrow> bool) \<Rightarrow> QueryBuilder \<Rightarrow> QueryBuilder" where
  "filter_qb predicate qb = qb\<lparr>data := filter predicate (data qb)\<rparr>"

definition limit :: "int \<Rightarrow> QueryBuilder \<Rightarrow> QueryBuilder" where
  "limit n qb = qb\<lparr>data := slice 0 n (data qb)\<rparr>"

datatype sort_order = Asc | Desc

text \<open>
  The comparison function of \<open>sort\<close>.  JavaScript's \<open>valA < valB\<close> on two property
  values (with its coercions) is the parameter \<open>lt\<close>; \<open>valA > valB\<close> is the same
  comparison with the operands exchanged.
\<close>

definition compare_by ::
  "(jsval \<Rightarrow> jsval \<Rightarrow> bool) \<Rightarrow> string \<Rightarrow> sort_order \<Rightarrow> item \<Rightarrow> item \<Rightarrow> int" where
  "compare_by lt key ord a b =
     (let valA = field a key; valB = field b key
      in if lt valA valB then (if ord = Asc then - 1 else 1)
         else if lt valB valA then (if ord = Asc then 1 else - 1)
         else 0)"

definition sort_qb ::
  "((item \<Rightarrow> item \<Rightarrow> int) \<Rightarrow> item list \<Rightarrow> item list) \<Rightarrow> (jsval \<Rightarrow> jsval \<Rightarrow> bool) \<Rightarrow>
   string \<Rightarrow> sort_order \<Rightarrow> QueryBuilder \<Rightarrow> QueryBuilder" where
  "sort_qb engine lt key ord qb = qb\<lparr>data := engine (compare_by lt key ord) (data qb)\<rparr>"

definition exec :: "QueryBuilder \<Rightarrow> item list" where
  "exec qb = data qb"

section \<open>JsonFileStore\<close>

text \<open>
  The schema the store is built with: \<open>schema.parse\<close> and
  \<open>schema.partial().parse\<close>.  Both are the caller's; each returns the parsed object or
  raises.
\<close>

record 'i ZodSchema =
  parse :: "'i \<Rightarrow> js_error + item"
  partial_parse :: "item \<Rightarrow> js_error + item"

text \<open>
  The file at \<open>filePath\<close>.  Its text is kept as what \<open>JSON.parse\<close> makes of it: the
  empty text, a text that \<open>JSON.parse\<close> rejects, or the text of an array of records
  (the store declares the parsed value as \<open>WithId<T>[]\<close>; the text of another JSON
  value is outside that type).  A file that cannot be read carries the \<open>code\<close> of
  the error \<open>fs.readFile\<close> is rejected with.
\<close>

datatype contents = Empty_text | Malformed | Json_array "json_item list"

datatype disk_file = Absent | Unreadable string | Present contents

datatype fs_call = Fs_read | Fs_write

text \<open>
  The state a call of the store runs in: the file, the store's lock, the error the
  file system would reject a write with (together with the file such a write leaves
  behind), and the file system calls made so far.  A call of the store never tells
  the waiters of its lock apart, so their promises carry no name here.
\<close>

record store_state =
  disk :: disk_file
  write_fault :: "(js_error \<times> disk_file) option"
  lock :: "unit WriteLock"
  calls :: "fs_call list"

text \<open>
  Each method is run to its end with no other call of the store in between.  Its
  promise is fulfilled with a value, rejected with an error, or stays pending: a
  \<open>writeFile\<close> that finds the lock taken waits for a \<open>release\<close> that no call of
  this run makes.
\<close>

datatype 'a outcome = Returned 'a | Raised js_error | Pending

definition return :: "'a \<Rightarrow> store_state \<Rightarrow> 'a outcome \<times> store_state" where
  "return v st = (Returned v, st)"

definition raise :: "js_error \<Rightarrow> store_state \<Rightarrow> 'a outcome \<times> store_state" where
  "raise e st = (Raised e, st)"

definition await ::
  "(store_state \<Rightarrow> 'a outcome \<times> store_state) \<Rightarrow>
   ('a \<Rightarrow> store_state \<Rightarrow> 'b outcome \<times> store_state) \<Rightarrow>
   store_state \<Rightarrow> 'b outcome \<times> store_state" where
  "await m f st =
     (case m st of
        (Returned v, st') \<Rightarrow> f v st'
      | (Raised e, st') \<Rightarrow> (Raised e, st')
      | (Pending, st') \<Rightarrow> (Pending, st'))"

definition fs_readFile :: "store_state \<Rightarrow> (js_error + contents) \<times> store_state" where
  "fs_readFile st =
     ((case disk st of
         Absent \<Rightarrow> Inl (SystemError ''ENOENT'')
       | Unreadable c \<Rightarrow> Inl (SystemError c)
       | Present t \<Rightarrow> Inr t),
      st\<lparr>calls := calls st @ [Fs_read]\<rparr>)"

definition fs_writeFile :: "contents \<Rightarrow> store_state \<Rightarrow> (js_error + unit) \<times> store_state" where
  "fs_writeFile t st =
     (case write_fault st of
        None \<Rightarrow> (Inr (), st\<lparr>disk := Present t, calls := calls st @ [Fs_write]\<rparr>)
      | Some (e, d) \<Rightarrow> (Inl e, st\<lparr>disk := d, calls := calls st @ [Fs_write]\<rparr>))"

fun JSON_parse :: "contents \<Rightarrow> js_error + item list" where
  "JSON_parse Empty_text = Inl SyntaxError"
| "JSON_parse Malformed = Inl SyntaxError"
| "JSON_parse (Json_array js) = Inr (map parse_item js)"

text \<open>
  \<open>JSON.stringify(data, null, 2)\<close>: the text of the array of what \<open>JSON.stringify\<close>
  writes for each record.
\<close>

definition JSON_stringify :: "item list \<Rightarrow> contents" where
  "JSON_stringify xs = Json_array (map stringify_item xs)"

text \<open>
  \<open>content || "[]"\<close>: the empty string is the only falsy text, so an empty file is
  read as the empty array.
\<close>

definition or_empty_array :: "contents \<Rightarrow> contents" where
  "or_empty_array t = (case t of Empty_text \<Rightarrow> Json_array [] | _ \<Rightarrow> t)"

definition readFile :: "store_state \<Rightarrow> item list outcome \<times> store_state" where
  "readFile st =
     (case fs_readFile st of
        (r, st') \<Rightarrow>
          (case (case r of
                   Inr content \<Rightarrow> JSON_parse (or_empty_array content)
                 | Inl err \<Rightarrow> Inl err) of
             Inr xs \<Rightarrow> (Returned xs, st')
           | Inl err \<Rightarrow>
               if code err = Some ''ENOENT'' then (Returned [], st') else (Raised err, st')))"

definition writeFile :: "item list \<Rightarrow> store_state \<Rightarrow> unit outcome \<times> store_state" where
  "writeFile xs st =
     (case acquire () (lock st) of
        (Waiting p, l') \<Rightarrow> (Pending, st\<lparr>lock := l'\<rparr>)
      | (Granted, l') \<Rightarrow>
          (case fs_writeFile (JSON_stringify xs) (st\<lparr>lock := l'\<rparr>) of
             (r, st') \<Rightarrow>
               (let st'' = st'\<lparr>lock := snd (release (lock st'))\<rparr>
                in case r of Inr u \<Rightarrow> (Returned (), st'') | Inl e \<Rightarrow> (Raised e, st''))))"

definition getAll :: "store_state \<Rightarrow> item list outcome \<times> store_state" where
  "getAll = readFile"

definition getById :: "string \<Rightarrow> store_state \<Rightarrow> item option outcome \<times> store_state" where
  "getById i = await readFile (\<lambda>xs. return (List.find (id_is i) xs))"

text \<open>
  \<open>create\<close>; \<open>uuid\<close> is the string that \<open>crypto.randomUUID()\<close> yields in this call.
\<close>

definition create ::
  "'i ZodSchema \<Rightarrow> string \<Rightarrow> 'i \<Rightarrow> store_state \<Rightarrow> item outcome \<times> store_state" where
  "create schema uuid input st =
     (case parse schema input of
        Inl e \<Rightarrow> raise e st
      | Inr parsed \<Rightarrow>
          await readFile (\<lambda>xs.
            let newItem = parsed ++ [''id'' \<mapsto> JStr uuid];
                xs' = xs @ [newItem]
            in await (writeFile xs') (\<lambda>u. return newItem)) st)"

definition update ::
  "'i ZodSchema \<Rightarrow> string \<Rightarrow> item \<Rightarrow> store_state \<Rightarrow> item option outcome \<times> store_state" where
  "update schema i updates =
     await readFile (\<lambda>xs.
       let index = findIndex (id_is i) xs
       in if index = - 1 then return None
          else
            (let updated = (xs ! nat index) ++ updates
             in case partial_parse schema updated of
                  Inl e \<Rightarrow> raise e
                | Inr parsed \<Rightarrow>
                    (let xs' = xs[nat index := (xs ! nat index) ++ parsed]
                     in await (writeFile xs') (\<lambda>u. return (Some (xs' ! nat index))))))"

definition delete :: "string \<Rightarrow> store_state \<Rightarrow> bool outcome \<times> store_state" where
  "delete i =
     await readFile (\<lambda>xs.
       let newData = filter (\<lambda>x. \<not> id_is i x) xs
       in if length newData = length xs then return False
          else await (writeFile newData) (\<lambda>u. return True))"

definition find_store :: "(item \<Rightarrow> bool) \<Rightarrow> store_state \<Rightarrow> item list outcome \<times> store_state" where
  "find_store filterFn = await readFile (\<lambda>xs. return (filter filterFn xs))"

definition first :: "(item \<Rightarrow> bool) \<Rightarrow> store_state \<Rightarrow> item option outcome \<times> store_state" where
  "first filterFn = await readFile (\<lambda>xs. return (List.find filterFn xs))"

definition count_store ::
  "(item \<Rightarrow> bool) option \<Rightarrow> store_state \<Rightarrow> nat outcome \<times> store_state" where
  "count_store filterFn =
     await readFile (\<lambda>xs.
       return (case filterFn of Some f \<Rightarrow> length (filter f xs) | None \<Rightarrow> length xs))"

definition exists :: "string \<Rightarrow> store_state \<Rightarrow> bool outcome \<times> store_state" where
  "exists i = await readFile (\<lambda>xs. return (list_ex (id_is i) xs))"

definition query :: "store_state \<Rightarrow> QueryBuilder outcome \<times> store_state" where
  "query = await readFile (\<lambda>xs. return (new_QueryBuilder xs))"

section \<open>Compositions and specifications\<close>

text \<open>
  The outcomes of the seven read operations in one state: \<open>getAll\<close>, \<open>getById\<close>,
  \<open>find\<close>, \<open>first\<close>, \<open>count\<close>, \<open>exists\<close> and \<open>query\<close>.
\<close>

definition read_results ::
  "string \<Rightarrow> (item \<Rightarrow> bool) \<Rightarrow> (item \<Rightarrow> bool) option \<Rightarrow> store_state \<Rightarrow>
   item list outcome \<times> item option outcome \<times> item list outcome \<times> item option outcome \<times>
   nat outcome \<times> bool outcome \<times> QueryBuilder outcome" where
  "read_results i p f st =
     (fst (getAll st), fst (getById i st), fst (find_store p st), fst (first p st),
      fst (count_store f st), fst (exists i st), fst (query st))"

text \<open>The chain \<open>(await store.query()).filter(p).sort(k, "desc").limit(n).exec()\<close>.\<close>

definition pipeline ::
  "((item \<Rightarrow> item \<Rightarrow> int) \<Rightarrow> item list \<Rightarrow> item list) \<Rightarrow> (jsval \<Rightarrow> jsval \<Rightarrow> bool) \<Rightarrow>
   (item \<Rightarrow> bool) \<Rightarrow> string \<Rightarrow> int \<Rightarrow> store_state \<Rightarrow> item list outcome \<times> store_state" where
  "pipeline engine lt predicate key n =
     await query (\<lambda>qb.
       return (exec (limit n (sort_qb engine lt key Desc (filter_qb predicate qb)))))"

text \<open>
  The specification's reading of the same query: the result of \<open>find(p)\<close>, sorted by
  the key in descending order (with the array sort and the comparison of the
  builder), cut to its first \<open>n\<close> records.
\<close>

definition pipeline_spec ::
  "((item \<Rightarrow> item \<Rightarrow> int) \<Rightarrow> item list \<Rightarrow> item list) \<Rightarrow> (jsval \<Rightarrow> jsval \<Rightarrow> bool) \<Rightarrow>
   (item \<Rightarrow> bool) \<Rightarrow> string \<Rightarrow> int \<Rightarrow> store_state \<Rightarrow> item list outcome \<times> store_state" where
  "pipeline_spec engine lt predicate key n =
     await (find_store predicate) (\<lambda>ys.
       return (take (nat n) (engine (compare_by lt key Desc) ys)))"

text \<open>
  The descending order of the key, defined without the array sort: a record goes
  behind the records whose key is greater than its own, and in front of the others.
\<close>

fun place_desc ::
  "(jsval \<Rightarrow> jsval \<Rightarrow> bool) \<Rightarrow> string \<Rightarrow> item \<Rightarrow> item list \<Rightarrow> item list" where
  "place_desc lt key x [] = [x]"
| "place_desc lt key x (y # ys) =
     (if lt (field x key) (field y key) then y # place_desc lt key x ys else x # y # ys)"

definition descending_by ::
  "(jsval \<Rightarrow> jsval \<Rightarrow> bool) \<Rightarrow> string \<Rightarrow> item list \<Rightarrow> item list" where
  "descending_by lt key xs = foldr (place_desc lt key) xs []"

text \<open>
  \<open><\<close> is a strict weak order on the values \<open>K\<close>: asymmetric, and being not less is
  transitive.  The comparison function of \<open>sort\<close> is consistent on records whose
  keys are such values.
\<close>

definition strict_weak_on :: "'a set \<Rightarrow> ('a \<Rightarrow> 'a \<Rightarrow> bool) \<Rightarrow> bool" where
  "strict_weak_on K lt =
     ((\<forall>a \<in> K. \<forall>b \<in> K. lt a b \<longrightarrow> \<not> lt b a)
      \<and> (\<forall>a \<in> K. \<forall>b \<in> K. \<forall>c \<in> K. \<not> lt a b \<and> \<not> lt b c \<longrightarrow> \<not> lt a c))"


text \<open>A lock that nobody holds or waits for.\<close>

definition idle :: "'p WriteLock \<Rightarrow> bool" where
  "idle l = (\<not> locked l \<and> queue l = [])"

section \<open>Sample data\<close>

text \<open>
  Three stored records and a store state that holds them, for the examples below.
\<close>

definition task_a :: item where
  "task_a = [''title'' \<mapsto> JStr ''Task A'', ''done'' \<mapsto> JBool False,
             ''rank'' \<mapsto> JNum 1, ''id'' \<mapsto> JStr ''id-a'']"

definition task_b :: item where
  "task_b = [''title'' \<mapsto> JStr ''Task B'', ''done'' \<mapsto> JBool True,
             ''rank'' \<mapsto> JNum 2, ''id'' \<mapsto> JStr ''id-b'']"

definition task_c :: item where
  "task_c = [''title'' \<mapsto> JStr ''Task C'', ''done'' \<mapsto> JBool False,
             ''rank'' \<mapsto> JNum 3, ''id'' \<mapsto> JStr ''id-c'']"

text \<open>A store whose file does not exist yet.\<close>

definition absent_state :: store_state where
  "absent_state = \<lparr>disk = Absent, write_fault = None, lock = new_WriteLock, calls = []\<rparr>"

text \<open>An input with a title and a field that the sample validator drops.\<close>

definition new_task :: item where
  "new_task = [''title'' \<mapsto> JStr ''Task N'', ''note'' \<mapsto> JNull]"

text \<open>An input without a title.\<close>

definition task_x :: item where
  "task_x = [''done'' \<mapsto> JBool True]"

definition sample_state :: store_state where
  "sample_state =
     \<lparr>disk = Present (JSON_stringify [task_a, task_b, task_c]), write_fault = None,
      lock = new_WriteLock, calls = []\<rparr>"

definition not_done :: "item \<Rightarrow> bool" where
  "not_done x = (x ''done'' = Some (JBool False))"

text \<open>A run of the lock with three callers: the first holds it and then releases it.\<close>

definition sample_run :: "nat lock_run" where
  "sample_run = do_release 1 (do_acquire 3 (do_acquire 2 (do_acquire 1 lock_init)))"

text \<open>JavaScript's \<open><\<close> where both operands are numbers, as in the sample data.\<close>

fun num_lt :: "jsval \<Rightarrow> jsval \<Rightarrow> bool" where
  "num_lt (JNum a) (JNum b) = (a < b)"
| "num_lt x y = False"

text \<open>
  A sort for the examples: insertion from the right, where \<open>comparefn x y \<le> 0\<close>
  keeps \<open>x\<close> in front of \<open>y\<close>.  On the sample data, whose keys are numbers, it
  returns what ECMAScript requires of the engine.
\<close>

fun insert_by :: "('a \<Rightarrow> 'a \<Rightarrow> int) \<Rightarrow> 'a \<Rightarrow> 'a list \<Rightarrow> 'a list" where
  "insert_by comparefn x [] = [x]"
| "insert_by comparefn x (y # ys) =
     (if comparefn x y \<le> 0 then x # y # ys else y # insert_by comparefn x ys)"

definition insertion_sort :: "('a \<Rightarrow> 'a \<Rightarrow> int) \<Rightarrow> 'a list \<Rightarrow> 'a list" where
  "insertion_sort comparefn xs = foldr (insert_by comparefn) xs []"

text \<open>
  Two sample validators.  \<open>title_schema\<close> wants a string \<open>title\<close> and hands it back
  as it is; \<open>shout_schema\<close> is the same with a transformation of the title
  (\<open>z.string().transform((s) => s + "!")\<close>).
\<close>

definition title_schema :: "item ZodSchema" where
  "title_schema =
     \<lparr>parse = (\<lambda>input. case input ''title'' of
                  Some (JStr t) \<Rightarrow> Inr [''title'' \<mapsto> JStr t]
                | _ \<Rightarrow> Inl (ValidationError ''title'')),
      partial_parse = (\<lambda>input. case input ''title'' of
                  None \<Rightarrow> Inr Map.empty
                | Some (JStr t) \<Rightarrow> Inr [''title'' \<mapsto> JStr t]
                | _ \<Rightarrow> Inl (ValidationError ''title''))\<rparr>"

text \<open>
  A validator with a date: \<open>z.object({ title: z.string(), due: z.date() })\<close>, and an
  input that it accepts.
\<close>

definition dated_schema :: "item ZodSchema" where
  "dated_schema =
     \<lparr>parse = (\<lambda>input. case (input ''title'', input ''due'') of
                  (Some (JStr t), Some (JDate d)) \<Rightarrow>
                    Inr [''title'' \<mapsto> JStr t, ''due'' \<mapsto> JDate d]
                | _ \<Rightarrow> Inl (ValidationError ''title, due'')),
      partial_parse = (\<lambda>input. case (input ''title'', input ''due'') of
                  (Some (JStr t), Some (JDate d)) \<Rightarrow>
                    Inr [''title'' \<mapsto> JStr t, ''due'' \<mapsto> JDate d]
                | _ \<Rightarrow> Inl (ValidationError ''title, due''))\<rparr>"

definition dated_task :: item where
  "dated_task =
     [''title'' \<mapsto> JStr ''Task D'', ''due'' \<mapsto> JDate ''2026-01-01T00:00:00.000Z'']"


section \<open>Array methods: lemmas\<close>

lemma slice_nonneg: "0 \<le> n \<Longrightarrow> slice 0 n xs = take (nat n) xs"
  by (simp add: slice_def Let_def min_def)

lemma length_filter_eq: "(length (filter P xs) = length xs) = (\<forall>x \<in> set xs. P x)"
  by (metis filter_id_conv length_filter_less less_irrefl)

lemma find_None_iff_list_ex: "(List.find P xs = None) = (\<not> list_ex P xs)"
  by (induction xs) simp_all

lemma findIndex_range: "- 1 \<le> findIndex P xs \<and> findIndex P xs < int (length xs)"
  by (induction xs) (simp_all add: Let_def)

lemma findIndex_none: "(findIndex P xs = - 1) = (\<not> list_ex P xs)"
proof (induction xs)
  case Nil
  show ?case by simp
next
  case (Cons x xs)
  from findIndex_range [of P xs] have "findIndex P xs + 1 \<noteq> - 1" by arith
  with Cons.IH show ?case by (simp add: Let_def)
qed


section \<open>Values and the file\<close>

lemma of_json_defined: "of_json j \<noteq> JUndefined"
  by (cases j) simp_all

text \<open>A JSON value that is parsed and written again is the same JSON value.\<close>

lemma to_json_of_json: "to_json (of_json j) = j"
proof (induction j)
  case (Json_list js)
  then show ?case by (simp add: map_idI)
next
  case (Json_object kvs)
  have f: "filter (\<lambda>(k, v). v \<noteq> JUndefined) (map (\<lambda>(k, v). (k, of_json v)) kvs)
             = map (\<lambda>(k, v). (k, of_json v)) kvs"
    by (rule filter_True) (auto simp add: of_json_defined)
  have "map (\<lambda>(k, v). (k, to_json v)) (map (\<lambda>(k, v). (k, of_json v)) kvs) = kvs"
    using Json_object by (induction kvs) (auto, fastforce)
  with f show ?case by simp
qed simp_all

lemma stringify_item_Some:
  "x k = Some v \<Longrightarrow> v \<noteq> JUndefined \<Longrightarrow> stringify_item x k = Some (to_json v)"
  by (cases v) (simp_all add: stringify_item_def)

lemma stringify_parse_item: "stringify_item (parse_item j) = j"
proof
  fix k
  show "stringify_item (parse_item j) k = j k"
  proof (cases "j k")
    case None
    then show ?thesis by (simp add: stringify_item_def parse_item_def)
  next
    case (Some v)
    then have "parse_item j k = Some (of_json v)" by (simp add: parse_item_def)
    with stringify_item_Some [of "parse_item j" k "of_json v"] of_json_defined [of v] Some
    show ?thesis by (simp add: to_json_of_json)
  qed
qed

text \<open>What a read returns of a record that was written.\<close>

lemma parse_stringify_safe:
  assumes "\<forall>v \<in> ran x. json_safe v"
  shows "parse_item (stringify_item x) = x"
proof
  fix k
  show "parse_item (stringify_item x) k = x k"
  proof (cases "x k")
    case None
    then show ?thesis by (simp add: stringify_item_def parse_item_def)
  next
    case (Some v)
    then have "v \<in> ran x" by (auto simp add: ran_def)
    with assms have "json_safe v" by simp
    with Some show ?thesis
      by (cases v) (simp_all add: stringify_item_def parse_item_def json_safe_def)
  qed
qed

lemma parse_stringify_id:
  "parse_item (stringify_item (x(''id'' \<mapsto> JStr i)))
     = (parse_item (stringify_item x))(''id'' \<mapsto> JStr i)"
  by (rule ext) (simp add: stringify_item_def parse_item_def)

lemma parse_stringify_parse: "parse_item (stringify_item (parse_item j)) = parse_item j"
  by (simp add: stringify_parse_item)

section \<open>The array sort and the descending order\<close>

lemma compare_desc_le: "(compare_by lt key Desc a b \<le> 0) = (\<not> lt (field a key) (field b key))"
  by (simp add: compare_by_def Let_def)

lemma compare_desc_eq:
  "(compare_by lt key Desc a b = 0)
     = (\<not> lt (field a key) (field b key) \<and> \<not> lt (field b key) (field a key))"
  by (simp add: compare_by_def Let_def)

lemma insert_by_desc: "insert_by (compare_by lt key Desc) x ys = place_desc lt key x ys"
  by (induction ys) (simp_all add: compare_desc_le)

lemma insertion_sort_desc: "insertion_sort (compare_by lt key Desc) xs = descending_by lt key xs"
  by (induction xs) (simp_all add: insertion_sort_def descending_by_def insert_by_desc)

text \<open>
  A stable sorted rearrangement by the comparison function of \<open>sort(key, "desc")\<close> is
  the descending order of the key: there is one such rearrangement at most.
\<close>

lemma sorted_wrt_remove1: "sorted_wrt P ys \<Longrightarrow> sorted_wrt P (remove1 x ys)"
  by (induction ys) (auto dest: notin_set_remove1)

lemma place_desc_remove1:
  assumes "sorted_wrt (\<lambda>a b. \<not> lt (field a key) (field b key)) ys"
    and "filter (\<lambda>y. \<not> lt (field x key) (field y key) \<and> \<not> lt (field y key) (field x key)) ys
           = x # rest"
  shows "place_desc lt key x (remove1 x ys) = ys"
  using assms
proof (induction ys)
  case Nil
  then show ?case by simp
next
  case (Cons y ys)
  show ?case
  proof (cases "y = x")
    case True
    with Cons.prems(1) show ?thesis by (cases ys) simp_all
  next
    case False
    let ?eq = "\<lambda>y. \<not> lt (field x key) (field y key) \<and> \<not> lt (field y key) (field x key)"
    from Cons.prems(2) False have ny: "\<not> ?eq y" by (auto split: if_splits)
    with Cons.prems(2) have f: "filter ?eq ys = x # rest" by simp
    then have "x \<in> set (filter ?eq ys)" by simp
    then have "x \<in> set ys" by simp
    with Cons.prems(1) have "\<not> lt (field y key) (field x key)" by simp
    with ny have l: "lt (field x key) (field y key)" by blast
    from Cons.prems(1) have "sorted_wrt (\<lambda>a b. \<not> lt (field a key) (field b key)) ys" by simp
    from Cons.IH [OF this f] False l show ?thesis by simp
  qed
qed

lemma stable_sorted_unique:
  "\<forall>x \<in> set xs. \<not> lt (field x key) (field x key) \<Longrightarrow>
   stable_sorted (compare_by lt key Desc) xs ys \<Longrightarrow> ys = descending_by lt key xs"
proof (induction xs arbitrary: ys)
  case Nil
  then show ?case by (simp add: stable_sorted_def descending_by_def)
next
  case (Cons x xs)
  let ?c = "compare_by lt key Desc"
  from Cons.prems(1) have irr: "\<not> lt (field x key) (field x key)"
    and irr': "\<forall>x \<in> set xs. \<not> lt (field x key) (field x key)" by simp_all
  from Cons.prems(2) have m: "mset ys = mset (x # xs)"
    and s: "sorted_wrt (\<lambda>a b. ?c a b \<le> 0) ys"
    and st: "\<forall>z \<in> set (x # xs). filter (\<lambda>y. ?c z y = 0) ys = filter (\<lambda>y. ?c z y = 0) (x # xs)"
    by (simp_all add: stable_sorted_def)
  have m': "mset (remove1 x ys) = mset xs" using m by simp
  have s': "sorted_wrt (\<lambda>a b. ?c a b \<le> 0) (remove1 x ys)"
    using s by (rule sorted_wrt_remove1)
  have st': "\<forall>z \<in> set xs. filter (\<lambda>y. ?c z y = 0) (remove1 x ys) = filter (\<lambda>y. ?c z y = 0) xs"
  proof
    fix z assume "z \<in> set xs"
    with st have e: "filter (\<lambda>y. ?c z y = 0) ys = filter (\<lambda>y. ?c z y = 0) (x # xs)" by simp
    have "filter (\<lambda>y. ?c z y = 0) (remove1 x ys) = remove1 x (filter (\<lambda>y. ?c z y = 0) ys)"
      by (rule filter_remove1)
    also have "\<dots> = filter (\<lambda>y. ?c z y = 0) xs"
      by (cases "?c z x = 0") (simp_all add: e remove1_idem)
    finally show "filter (\<lambda>y. ?c z y = 0) (remove1 x ys) = filter (\<lambda>y. ?c z y = 0) xs" .
  qed
  from m' s' st' have "stable_sorted ?c xs (remove1 x ys)" by (simp add: stable_sorted_def)
  with irr' have ih: "remove1 x ys = descending_by lt key xs" by (rule Cons.IH)
  from st have fx: "filter (\<lambda>y. ?c x y = 0) ys = filter (\<lambda>y. ?c x y = 0) (x # xs)" by simp
  from s have s2: "sorted_wrt (\<lambda>a b. \<not> lt (field a key) (field b key)) ys"
    by (simp add: compare_desc_le)
  from irr have "?c x x = 0" by (simp add: compare_desc_eq)
  with fx have "filter (\<lambda>y. \<not> lt (field x key) (field y key) \<and> \<not> lt (field y key) (field x key)) ys
                    = x # filter (\<lambda>y. ?c x y = 0) xs"
    by (simp add: compare_desc_eq)
  with s2 have "place_desc lt key x (remove1 x ys) = ys" by (rule place_desc_remove1)
  with ih show ?case by (simp add: descending_by_def)
qed

text \<open>
  Where \<open><\<close> is a strict weak order on the keys, the descending order is such a
  rearrangement: a sort by insertion is then a sort that ECMAScript allows.
\<close>

lemma mset_place_desc: "mset (place_desc lt key x ys) = add_mset x (mset ys)"
  by (induction ys) simp_all

lemma mset_descending_by: "mset (descending_by lt key xs) = mset xs"
  by (induction xs) (simp_all add: descending_by_def mset_place_desc)

lemma set_place_desc: "set (place_desc lt key x ys) = insert x (set ys)"
  by (induction ys) auto

lemma set_descending_by: "set (descending_by lt key xs) = set xs"
  by (metis mset_descending_by set_mset_mset)

lemma sw_asym:
  "strict_weak_on K lt \<Longrightarrow> a \<in> K \<Longrightarrow> b \<in> K \<Longrightarrow> lt a b \<Longrightarrow> \<not> lt b a"
  unfolding strict_weak_on_def by blast

lemma sw_ntrans:
  "strict_weak_on K lt \<Longrightarrow> a \<in> K \<Longrightarrow> b \<in> K \<Longrightarrow> c \<in> K \<Longrightarrow>
     \<not> lt a b \<Longrightarrow> \<not> lt b c \<Longrightarrow> \<not> lt a c"
  unfolding strict_weak_on_def by blast

lemma sorted_place_desc:
  assumes sw: "strict_weak_on K lt"
    and x: "field x key \<in> K"
  shows "\<forall>y \<in> set ys. field y key \<in> K \<Longrightarrow>
         sorted_wrt (\<lambda>a b. \<not> lt (field a key) (field b key)) ys \<Longrightarrow>
         sorted_wrt (\<lambda>a b. \<not> lt (field a key) (field b key)) (place_desc lt key x ys)"
proof (induction ys)
  case Nil
  show ?case by simp
next
  case (Cons y ys)
  from Cons.prems(1) have y: "field y key \<in> K" and ys: "\<forall>z \<in> set ys. field z key \<in> K"
    by simp_all
  show ?case
  proof (cases "lt (field x key) (field y key)")
    case True
    from sw_asym [OF sw x y True] have n: "\<not> lt (field y key) (field x key)" .
    from Cons.prems(2) have t: "sorted_wrt (\<lambda>a b. \<not> lt (field a key) (field b key)) ys"
      and h: "\<forall>z \<in> set ys. \<not> lt (field y key) (field z key)" by simp_all
    from n h have "\<forall>z \<in> set (place_desc lt key x ys). \<not> lt (field y key) (field z key)"
      by (simp add: set_place_desc)
    with True Cons.IH [OF ys t] show ?thesis by simp
  next
    case False
    have "\<forall>z \<in> set ys. \<not> lt (field x key) (field z key)"
    proof
      fix z assume z: "z \<in> set ys"
      with Cons.prems(2) have yz: "\<not> lt (field y key) (field z key)" by simp
      from ys z have zk: "field z key \<in> K" by simp
      from sw_ntrans [OF sw x y zk False yz] show "\<not> lt (field x key) (field z key)" .
    qed
    with False Cons.prems(2) show ?thesis by simp
  qed
qed

lemma sorted_descending_by:
  assumes sw: "strict_weak_on K lt"
  shows "\<forall>x \<in> set xs. field x key \<in> K \<Longrightarrow>
         sorted_wrt (\<lambda>a b. \<not> lt (field a key) (field b key)) (descending_by lt key xs)"
proof (induction xs)
  case Nil
  show ?case by (simp add: descending_by_def)
next
  case (Cons x xs)
  from Cons.prems have x: "field x key \<in> K" and xs: "\<forall>z \<in> set xs. field z key \<in> K" by simp_all
  from xs have k: "\<forall>y \<in> set (descending_by lt key xs). field y key \<in> K"
    by (simp add: set_descending_by)
  from sorted_place_desc [OF sw x k Cons.IH [OF xs]]
  show ?case by (simp add: descending_by_def)
qed

lemma filter_place_desc:
  assumes sw: "strict_weak_on K lt"
    and x: "field x key \<in> K" and z: "field z key \<in> K"
  shows "\<forall>y \<in> set ys. field y key \<in> K \<Longrightarrow>
         filter (\<lambda>y. compare_by lt key Desc z y = 0) (place_desc lt key x ys)
           = filter (\<lambda>y. compare_by lt key Desc z y = 0) (x # ys)"
proof (induction ys)
  case Nil
  show ?case by simp
next
  case (Cons y ys)
  from Cons.prems have y: "field y key \<in> K" and ys: "\<forall>w \<in> set ys. field w key \<in> K"
    by simp_all
  show ?case
  proof (cases "lt (field x key) (field y key)")
    case False
    then show ?thesis by simp
  next
    case True
    have "\<not> (compare_by lt key Desc z x = 0 \<and> compare_by lt key Desc z y = 0)"
    proof
      assume "compare_by lt key Desc z x = 0 \<and> compare_by lt key Desc z y = 0"
      then have xz: "\<not> lt (field x key) (field z key)" and zy: "\<not> lt (field z key) (field y key)"
        by (simp_all add: compare_desc_eq)
      from sw_ntrans [OF sw x z y xz zy] True show False by simp
    qed
    with True Cons.IH [OF ys] show ?thesis by (simp split: if_splits)
  qed
qed

lemma filter_descending_by:
  assumes sw: "strict_weak_on K lt" and z: "field z key \<in> K"
  shows "\<forall>x \<in> set xs. field x key \<in> K \<Longrightarrow>
         filter (\<lambda>y. compare_by lt key Desc z y = 0) (descending_by lt key xs)
           = filter (\<lambda>y. compare_by lt key Desc z y = 0) xs"
proof (induction xs)
  case Nil
  show ?case by (simp add: descending_by_def)
next
  case (Cons x xs)
  from Cons.prems have x: "field x key \<in> K" and xs: "\<forall>w \<in> set xs. field w key \<in> K" by simp_all
  from xs have k: "\<forall>y \<in> set (descending_by lt key xs). field y key \<in> K"
    by (simp add: set_descending_by)
  have "filter (\<lambda>y. compare_by lt key Desc z y = 0) (descending_by lt key (x # xs))
          = filter (\<lambda>y. compare_by lt key Desc z y = 0) (x # descending_by lt key xs)"
    using filter_place_desc [OF sw x z k] by (simp add: descending_by_def)
  with Cons.IH [OF xs] show ?case by simp
qed

lemma descending_by_stable_sorted:
  assumes "strict_weak_on ((\<lambda>x. field x key) ` set xs) lt"
  shows "stable_sorted (compare_by lt key Desc) xs (descending_by lt key xs)"
proof -
  let ?K = "(\<lambda>x. field x key) ` set xs"
  have k: "\<forall>x \<in> set xs. field x key \<in> ?K" by simp
  have "sorted_wrt (\<lambda>a b. compare_by lt key Desc a b \<le> 0) (descending_by lt key xs)"
    using sorted_descending_by [OF assms k] by (simp add: compare_desc_le)
  moreover have "\<forall>z \<in> set xs. filter (\<lambda>y. compare_by lt key Desc z y = 0) (descending_by lt key xs)
           = filter (\<lambda>y. compare_by lt key Desc z y = 0) xs"
  proof
    fix z assume "z \<in> set xs"
    then have "field z key \<in> ?K" by simp
    from filter_descending_by [OF assms this k]
    show "filter (\<lambda>y. compare_by lt key Desc z y = 0) (descending_by lt key xs)
           = filter (\<lambda>y. compare_by lt key Desc z y = 0) xs" .
  qed
  ultimately show ?thesis by (simp add: stable_sorted_def mset_descending_by)
qed

section \<open>limit\<close>

text \<open>
  Claim C9 as stated fails for a negative \<open>n\<close>: \<open>slice(0, -1)\<close> drops the last record
  and keeps the others, where the prefix of length \<open>min(n, length)\<close> is empty.
\<close>

theorem limit_negative_counterexample:
  "exec (limit (- 1) (new_QueryBuilder [task_a, task_b, task_c])) = [task_a, task_b]
   \<and> take (nat (min (- 1) (int (length [task_a, task_b, task_c])))) [task_a, task_b, task_c] = []"
  by (simp add: exec_def limit_def new_QueryBuilder_def slice_def)

text \<open>
  Claim C9, amended: for every working sequence and every \<open>n \<ge> 0\<close>, \<open>limit(n)\<close>
  truncates the working sequence to at most its first \<open>n\<close> records; the result is the
  prefix of length \<open>min(n, length)\<close>.
\<close>

theorem limit_prefix:
  "0 \<le> n \<Longrightarrow>
     exec (limit n qb) = take (nat (min n (int (length (exec qb))))) (exec qb)
     \<and> int (length (exec (limit n qb))) \<le> n"
  by (auto simp add: exec_def limit_def slice_nonneg min_def)

theorem limit_prefix_witness:
  "(0::int) \<le> 2
   \<and> exec (limit 2 (new_QueryBuilder [task_a, task_b, task_c])) = [task_a, task_b]"
  using limit_prefix [of 2 "new_QueryBuilder [task_a, task_b, task_c]"]
  by (simp add: exec_def new_QueryBuilder_def)

section \<open>The write lock\<close>

lemma acquire_locked:
  "locked l \<Longrightarrow> acquire p l = (Waiting p, l\<lparr>queue := queue l @ [p]\<rparr>)"
  by (simp add: acquire_def)

lemma release_cases:
  "release l =
     (case queue l of
        [] \<Rightarrow> (None, l\<lparr>locked := False\<rparr>)
      | q # qs \<Rightarrow> (Some q, l\<lparr>queue := qs, locked := True\<rparr>))"
  by (simp add: release_def Let_def split: list.splits)

lemma lock_inv_init: "lock_inv lock_init"
  by (simp add: lock_inv_def lock_init_def new_WriteLock_def)

lemma lock_inv_acquire: "lock_inv s \<Longrightarrow> lock_inv (do_acquire p s)"
  by (auto simp add: lock_inv_def do_acquire_def acquire_def)

lemma holders_single: "length hs \<le> 1 \<Longrightarrow> p \<in> set hs \<Longrightarrow> hs = [p]"
  by (cases hs) auto

lemma lock_inv_release:
  assumes "lock_inv s" and "p \<in> set (holders s)"
  shows "lock_inv (do_release p s)"
proof -
  from assms have h: "holders s = [p]"
    by (simp add: lock_inv_def holders_single)
  show ?thesis
  proof (cases "queue (lk s)")
    case Nil
    with assms h show ?thesis
      by (simp add: lock_inv_def do_release_def release_cases)
  next
    case (Cons q qs)
    with assms h show ?thesis
      by (simp add: lock_inv_def do_release_def release_cases)
  qed
qed

lemma execution_lock_inv: "execution cs s \<Longrightarrow> lock_inv s"
proof (induction rule: execution.induct)
  case execution_init
  show ?case by (rule lock_inv_init)
next
  case (execution_step cs s c s')
  from execution_step.hyps(2) execution_step.IH show ?case
    by (cases rule: lock_step.cases) (simp_all add: lock_inv_acquire lock_inv_release)
qed

text \<open>
  Claim C6: the write lock is first-in-first-out fair.  In every state \<open>s\<close> that an
  execution of the lock's step relation reaches from the new lock: at most one caller
  holds the lock;
  while it is held, \<open>acquire\<close> suspends its caller at the end of the queue and leaves
  the holder in place; the promises of all \<open>acquire\<close> calls, in the order the calls
  arrived, are the promises granted so far, in the order of the grants, followed by
  the queue, so the lock is granted in arrival order; \<open>release\<close> resolves the
  oldest waiter and leaves the lock taken if there is a waiter, and marks the lock
  free otherwise; after the holder's \<open>release\<close> the holder is that oldest waiter, or
  nobody.
\<close>

theorem write_lock_fifo:
  assumes "execution cs s"
  shows "length (holders s) \<le> 1
    \<and> (holders s \<noteq> [] \<longrightarrow>
          acquire p (lk s) = (Waiting p, (lk s)\<lparr>queue := queue (lk s) @ [p]\<rparr>)
          \<and> holders (do_acquire p s) = holders s)
    \<and> arrivals s = grants s @ queue (lk s)
    \<and> release (lk s) =
         (case queue (lk s) of
            [] \<Rightarrow> (None, (lk s)\<lparr>locked := False\<rparr>)
          | q # qs \<Rightarrow> (Some q, (lk s)\<lparr>queue := qs, locked := True\<rparr>))
    \<and> (\<forall>h \<in> set (holders s). holders (do_release h s) = take 1 (queue (lk s)))"
proof -
  from assms have inv: "lock_inv s" by (rule execution_lock_inv)
  have one: "length (holders s) \<le> 1" using inv by (simp add: lock_inv_def)
  have fifo: "arrivals s = grants s @ queue (lk s)" using inv by (simp add: lock_inv_def)
  have susp: "holders s \<noteq> [] \<longrightarrow>
          acquire p (lk s) = (Waiting p, (lk s)\<lparr>queue := queue (lk s) @ [p]\<rparr>)
          \<and> holders (do_acquire p s) = holders s"
    using inv by (simp add: lock_inv_def acquire_locked do_acquire_def)
  have rel: "\<forall>h \<in> set (holders s). holders (do_release h s) = take 1 (queue (lk s))"
  proof
    fix h assume "h \<in> set (holders s)"
    with one have "holders s = [h]" by (simp add: holders_single)
    then show "holders (do_release h s) = take 1 (queue (lk s))"
      by (simp add: do_release_def release_cases split: list.splits)
  qed
  from one susp fifo rel show ?thesis by (simp add: release_cases)
qed

lemma sample_run_eq:
  "sample_run =
     \<lparr>lk = \<lparr>locked = True, queue = [3]\<rparr>, arrivals = [1, 2, 3], grants = [1, 2],
      holders = [2]\<rparr>"
  by (simp add: sample_run_def do_release_def do_acquire_def lock_init_def new_WriteLock_def
      acquire_def release_def)

lemma sample_run_execution:
  "execution [Release 1, Acquire 3, Acquire 2, Acquire 1] sample_run"
proof -
  have r1: "execution [Acquire 1] (do_acquire (1::nat) lock_init)"
    by (rule execution_step [OF execution_init step_acquire])
  have r2: "execution [Acquire 2, Acquire 1] (do_acquire 2 (do_acquire (1::nat) lock_init))"
    by (rule execution_step [OF r1 step_acquire])
  have r3: "execution [Acquire 3, Acquire 2, Acquire 1]
              (do_acquire 3 (do_acquire 2 (do_acquire (1::nat) lock_init)))"
    by (rule execution_step [OF r2 step_acquire])
  have h: "(1::nat) \<in> set (holders (do_acquire 3 (do_acquire 2 (do_acquire (1::nat) lock_init))))"
    by (simp add: do_acquire_def lock_init_def new_WriteLock_def acquire_def)
  show ?thesis unfolding sample_run_def
    by (rule execution_step [OF r3 step_release [OF h]])
qed

theorem write_lock_fifo_witness:
  "execution [Release 1, Acquire 3, Acquire 2, Acquire 1] sample_run
   \<and> holders sample_run = [2]
   \<and> arrivals sample_run = [1, 2, 3]
   \<and> grants sample_run = [1, 2]
   \<and> queue (lk sample_run) = [3]
   \<and> fst (acquire 4 (lk sample_run)) = Waiting 4
   \<and> fst (release (lk sample_run)) = Some 3
   \<and> holders (do_release 2 sample_run) = [3]"
  using write_lock_fifo [OF sample_run_execution, of 4] sample_run_execution
  by (simp add: sample_run_eq)

section \<open>The store: reading and writing the file\<close>

lemma readFile_snd: "snd (readFile st) = st\<lparr>calls := calls st @ [Fs_read]\<rparr>"
  by (simp add: readFile_def fs_readFile_def split: disk_file.splits sum.splits)

lemma readFile_same_disk: "disk st' = disk st \<Longrightarrow> fst (readFile st') = fst (readFile st)"
  by (simp add: readFile_def fs_readFile_def split: disk_file.splits sum.splits)

lemma readFile_Absent: "disk st = Absent \<Longrightarrow> fst (readFile st) = Returned []"
  by (simp add: readFile_def fs_readFile_def)

lemma readFile_Json_array:
  "disk st = Present (Json_array js) \<Longrightarrow> fst (readFile st) = Returned (map parse_item js)"
  by (simp add: readFile_def fs_readFile_def or_empty_array_def)

text \<open>
  The records that a read returns are values of JSON: written again, they come
  back as they are.  So does a collection of such records.
\<close>

lemma readFile_items:
  assumes "fst (readFile st) = Returned xs"
  shows "\<forall>x \<in> set xs. parse_item (stringify_item x) = x"
proof (cases "disk st")
  case Absent
  with assms show ?thesis by (simp add: readFile_Absent)
next
  case (Unreadable c)
  with assms show ?thesis
    by (simp add: readFile_def fs_readFile_def split: if_splits)
next
  case (Present t)
  show ?thesis
  proof (cases t)
    case Empty_text
    with Present assms show ?thesis
      by (simp add: readFile_def fs_readFile_def or_empty_array_def)
  next
    case Malformed
    with Present assms show ?thesis
      by (simp add: readFile_def fs_readFile_def or_empty_array_def)
  next
    case (Json_array js)
    with Present assms have "xs = map parse_item js" by (simp add: readFile_Json_array)
    then show ?thesis by (auto simp add: parse_stringify_parse)
  qed
qed

lemma readFile_written:
  assumes "disk st = Present (JSON_stringify xs)"
    and "\<forall>x \<in> set xs. parse_item (stringify_item x) = x"
  shows "fst (readFile st) = Returned xs"
proof -
  from assms(2) have "map parse_item (map stringify_item xs) = xs"
    by (induction xs) simp_all
  with assms(1) show ?thesis by (simp add: JSON_stringify_def readFile_Json_array)
qed

text \<open>
  The two failures of a read: \<open>fs.readFile\<close> is rejected, with a code other than
  \<open>ENOENT\<close>, or \<open>JSON.parse\<close> throws.
\<close>

lemma readFile_fs_error:
  "fst (fs_readFile st) = Inl e \<Longrightarrow> code e \<noteq> Some ''ENOENT'' \<Longrightarrow> fst (readFile st) = Raised e"
  by (cases "fs_readFile st") (simp add: readFile_def)

lemma JSON_parse_error: "JSON_parse t = Inl e \<Longrightarrow> e = SyntaxError"
  by (cases t) simp_all

lemma readFile_parse_error:
  assumes "fst (fs_readFile st) = Inr t" and "JSON_parse (or_empty_array t) = Inl e"
  shows "fst (readFile st) = Raised e"
proof -
  from assms(2) have "e = SyntaxError" by (rule JSON_parse_error)
  with assms show ?thesis by (cases "fs_readFile st") (simp add: readFile_def)
qed

lemma await_readFile:
  "await readFile f st =
     (case fst (readFile st) of
        Returned xs \<Rightarrow> f xs (snd (readFile st))
      | Raised e \<Rightarrow> (Raised e, snd (readFile st))
      | Pending \<Rightarrow> (Pending, snd (readFile st)))"
  by (simp add: await_def split: prod.splits outcome.splits)

lemma await_assoc: "await (await m f) g = await m (\<lambda>x. await (f x) g)"
  by (rule ext) (simp add: await_def split: prod.splits outcome.splits)

lemma return_await: "await (return v) f = f v"
  by (rule ext) (simp add: await_def return_def)

lemma await_Returned_elim:
  assumes "await m f st = (Returned b, st')"
  obtains v st1 where "m st = (Returned v, st1)" and "f v st1 = (Returned b, st')"
proof (cases "m st")
  case (Pair r st1)
  show ?thesis
  proof (cases r)
    case (Returned v)
    with Pair assms have "f v st1 = (Returned b, st')" by (simp add: await_def)
    with Pair Returned that show ?thesis by blast
  next
    case (Raised e)
    with Pair assms show ?thesis by (simp add: await_def)
  next
    case Pending
    with Pair assms show ?thesis by (simp add: await_def)
  qed
qed

text \<open>
  A write on an idle lock that the file system accepts: the file holds the new
  collection, and the lock is idle again.
\<close>

lemma idle_locked_False: "idle l \<Longrightarrow> l\<lparr>locked := False\<rparr> = l"
  by (cases l) (simp add: idle_def)

lemma writeFile_idle:
  assumes "idle (lock st)" and "write_fault st = None"
  shows "writeFile xs st =
           (Returned (),
            st\<lparr>disk := Present (JSON_stringify xs), calls := calls st @ [Fs_write]\<rparr>)"
proof -
  from assms(1) have l: "\<not> locked (lock st)" "queue (lock st) = []"
    by (simp_all add: idle_def)
  have "(lock st)\<lparr>locked := False\<rparr> = lock st"
    using assms(1) by (rule idle_locked_False)
  then have "st\<lparr>lock := (lock st)\<lparr>locked := False\<rparr>\<rparr> = st" by simp
  with l assms(2) show ?thesis
    by (simp add: writeFile_def acquire_def release_def fs_writeFile_def)
qed

lemma await_writeFile_idle:
  assumes "idle (lock st)" and "write_fault st = None"
  shows "await (writeFile xs) f st =
           f () (st\<lparr>disk := Present (JSON_stringify xs), calls := calls st @ [Fs_write]\<rparr>)"
  by (simp add: await_def writeFile_idle [OF assms])

lemma writeFile_Returned:
  "writeFile xs st = (Returned u, st') \<Longrightarrow> disk st' = Present (JSON_stringify xs)"
  by (auto simp add: writeFile_def acquire_def fs_writeFile_def Let_def
      split: if_splits option.splits prod.splits sum.splits)

lemma getById_readFile:
  "fst (readFile st) = Returned xs \<Longrightarrow> fst (getById i st) = Returned (List.find (id_is i) xs)"
  by (simp add: getById_def await_readFile return_def)

subsection \<open>The sample data\<close>

lemma sample_json:
  "parse_item (stringify_item task_a) = task_a"
  "parse_item (stringify_item task_b) = task_b"
  "parse_item (stringify_item task_c) = task_c"
  by (rule ext, simp add: stringify_item_def parse_item_def task_a_def task_b_def task_c_def)+

lemma sample_read: "fst (readFile sample_state) = Returned [task_a, task_b, task_c]"
  by (rule readFile_written) (simp_all add: sample_state_def sample_json)

lemma sample_idle: "idle (lock sample_state)"
  by (simp add: sample_state_def idle_def new_WriteLock_def)

lemma sample_no_fault: "write_fault sample_state = None"
  by (simp add: sample_state_def)

lemma sample_calls: "calls sample_state = []"
  by (simp add: sample_state_def)

lemma sample_ids:
  "id_is i task_a = (i = ''id-a'')"
  "id_is i task_b = (i = ''id-b'')"
  "id_is i task_c = (i = ''id-c'')"
  by (auto simp add: id_is_def task_a_def task_b_def task_c_def)


lemma sample_has_b: "list_ex (id_is ''id-b'') [task_a, task_b, task_c]"
  by (simp add: sample_ids)

lemma sample_without_b:
  "filter (\<lambda>x. \<not> id_is ''id-b'' x) [task_a, task_b, task_c] = [task_a, task_c]"
  by (simp add: sample_ids)

lemma sample_no_z: "\<not> list_ex (id_is ''id-z'') [task_a, task_b, task_c]"
  by (simp add: sample_ids)

lemma sample_no_n: "\<not> list_ex (id_is ''id-n'') [task_a, task_b, task_c]"
  by (simp add: sample_ids)

lemma sample_not_done: "filter not_done [task_a, task_b, task_c] = [task_a, task_c]"
  by (simp add: not_done_def task_a_def task_b_def task_c_def)

lemma sample_ranks:
  "field task_a ''rank'' = JNum 1"
  "field task_c ''rank'' = JNum 3"
  by (simp_all add: field_def task_a_def task_c_def)

lemma sample_sorted: "descending_by num_lt ''rank'' [task_a, task_c] = [task_c, task_a]"
  by (simp add: descending_by_def sample_ranks)

section \<open>The read operations\<close>

lemma read_results_Returned:
  "fst (readFile st) = Returned xs \<Longrightarrow>
   read_results i p f st =
     (Returned xs, Returned (List.find (id_is i) xs), Returned (filter p xs),
      Returned (List.find p xs),
      Returned (case f of Some g \<Rightarrow> length (filter g xs) | None \<Rightarrow> length xs),
      Returned (list_ex (id_is i) xs), Returned (new_QueryBuilder xs))"
  by (simp add: read_results_def getAll_def getById_def find_store_def first_def count_store_def
      exists_def query_def await_readFile return_def)

lemma read_results_Raised:
  "fst (readFile st) = Raised e \<Longrightarrow>
   read_results i p f st =
     (Raised e, Raised e, Raised e, Raised e, Raised e, Raised e, Raised e)"
  by (simp add: read_results_def getAll_def getById_def find_store_def first_def count_store_def
      exists_def query_def await_readFile return_def)

text \<open>
  Claim C7: when the backing file is absent, every read operation (\<open>getAll\<close>,
  \<open>getById\<close>, \<open>find\<close>, \<open>first\<close>, \<open>count\<close>, \<open>exists\<close>, \<open>query\<close>) behaves as if the
  collection were empty: it returns what it returns on a file that holds the empty
  array, and does not fail.  Any other read failure propagates to the caller as an
  error: the error \<open>e\<close> that \<open>fs.readFile\<close> is rejected with, when its code is not
  \<open>ENOENT\<close> (permissions), and the error \<open>e\<close> that \<open>JSON.parse\<close> throws (malformed
  JSON).
\<close>

theorem absent_file_reads_as_empty:
  "(disk st = Absent \<longrightarrow>
      read_results i p f st =
        (Returned [], Returned None, Returned [], Returned None, Returned 0, Returned False,
         Returned (new_QueryBuilder []))
      \<and> read_results i p f st = read_results i p f (st\<lparr>disk := Present (Json_array [])\<rparr>))
   \<and> (fst (fs_readFile st) = Inl e \<and> code e \<noteq> Some ''ENOENT'' \<longrightarrow>
        read_results i p f st =
          (Raised e, Raised e, Raised e, Raised e, Raised e, Raised e, Raised e))
   \<and> (fst (fs_readFile st) = Inr t \<and> JSON_parse (or_empty_array t) = Inl e \<longrightarrow>
        read_results i p f st =
          (Raised e, Raised e, Raised e, Raised e, Raised e, Raised e, Raised e))"
proof (intro conjI impI)
  assume a: "disk st = Absent"
  then have r: "fst (readFile st) = Returned []" by (rule readFile_Absent)
  have r': "fst (readFile (st\<lparr>disk := Present (Json_array [])\<rparr>)) = Returned []"
    by (simp add: readFile_Json_array)
  show "read_results i p f st =
        (Returned [], Returned None, Returned [], Returned None, Returned 0, Returned False,
         Returned (new_QueryBuilder []))"
    by (simp add: read_results_Returned [OF r] split: option.splits)
  show "read_results i p f st = read_results i p f (st\<lparr>disk := Present (Json_array [])\<rparr>)"
    by (simp only: read_results_Returned [OF r] read_results_Returned [OF r'])
next
  assume "fst (fs_readFile st) = Inl e \<and> code e \<noteq> Some ''ENOENT''"
  then have "fst (readFile st) = Raised e" by (simp add: readFile_fs_error)
  then show "read_results i p f st =
          (Raised e, Raised e, Raised e, Raised e, Raised e, Raised e, Raised e)"
    by (rule read_results_Raised)
next
  assume "fst (fs_readFile st) = Inr t \<and> JSON_parse (or_empty_array t) = Inl e"
  then have "fst (readFile st) = Raised e" by (simp add: readFile_parse_error)
  then show "read_results i p f st =
          (Raised e, Raised e, Raised e, Raised e, Raised e, Raised e, Raised e)"
    by (rule read_results_Raised)
qed

theorem absent_file_reads_as_empty_witness:
  "read_results ''id-a'' not_done None absent_state =
     (Returned [], Returned None, Returned [], Returned None, Returned 0, Returned False,
      Returned (new_QueryBuilder []))
   \<and> fst (getAll (absent_state\<lparr>disk := Unreadable ''EACCES''\<rparr>)) = Raised (SystemError ''EACCES'')
   \<and> fst (getAll (absent_state\<lparr>disk := Present Malformed\<rparr>)) = Raised SyntaxError"
proof -
  have a: "disk absent_state = Absent" by (simp add: absent_state_def)
  from absent_file_reads_as_empty [of absent_state "''id-a''" not_done None] a
  have 1: "read_results ''id-a'' not_done None absent_state =
     (Returned [], Returned None, Returned [], Returned None, Returned 0, Returned False,
      Returned (new_QueryBuilder []))" by blast
  have b: "fst (fs_readFile (absent_state\<lparr>disk := Unreadable ''EACCES''\<rparr>))
             = Inl (SystemError ''EACCES'')
    \<and> code (SystemError ''EACCES'') \<noteq> Some ''ENOENT''"
    by (simp add: fs_readFile_def)
  from absent_file_reads_as_empty
    [of "absent_state\<lparr>disk := Unreadable ''EACCES''\<rparr>" "''id-a''" not_done None
      "SystemError ''EACCES''"] b
  have 2: "fst (getAll (absent_state\<lparr>disk := Unreadable ''EACCES''\<rparr>))
             = Raised (SystemError ''EACCES'')"
    by (simp add: read_results_def)
  have c: "fst (fs_readFile (absent_state\<lparr>disk := Present Malformed\<rparr>)) = Inr Malformed
    \<and> JSON_parse (or_empty_array Malformed) = Inl SyntaxError"
    by (simp add: fs_readFile_def or_empty_array_def)
  from absent_file_reads_as_empty
    [of "absent_state\<lparr>disk := Present Malformed\<rparr>" "''id-a''" not_done None SyntaxError Malformed] c
  have 3: "fst (getAll (absent_state\<lparr>disk := Present Malformed\<rparr>)) = Raised SyntaxError"
    by (simp add: read_results_def)
  from 1 2 3 show ?thesis by blast
qed

text \<open>
  Claim C8: for every collection state \<open>xs\<close> and predicate \<open>p\<close>, \<open>find(p)\<close> returns
  exactly the subsequence of the records for which \<open>p\<close> holds, in the collection's
  stored order; and \<open>count()\<close> with no predicate equals the length of \<open>getAll()\<close>.
\<close>

theorem find_and_count:
  "fst (readFile st) = Returned xs \<Longrightarrow>
     fst (find_store p st) = Returned (filter p xs)
     \<and> subseq (filter p xs) xs
     \<and> set (filter p xs) = {x \<in> set xs. p x}
     \<and> fst (getAll st) = Returned xs
     \<and> fst (count_store None st) = Returned (length xs)"
  by (simp add: find_store_def getAll_def count_store_def await_readFile return_def)

theorem find_and_count_witness:
  "fst (readFile sample_state) = Returned [task_a, task_b, task_c]
   \<and> fst (find_store not_done sample_state) = Returned [task_a, task_c]
   \<and> fst (count_store None sample_state) = Returned 3"
proof -
  from find_and_count [OF sample_read, of not_done]
  have "fst (find_store not_done sample_state) = Returned (filter not_done [task_a, task_b, task_c])"
    and "fst (count_store None sample_state) = Returned (length [task_a, task_b, task_c])"
    by blast+
  with sample_read show ?thesis by (simp only: sample_not_done) simp
qed

section \<open>The query pipeline\<close>

lemma pipeline_composes:
  "0 \<le> n \<Longrightarrow> pipeline engine lt p key n st = pipeline_spec engine lt p key n st"
  by (simp add: pipeline_def pipeline_spec_def query_def find_store_def await_assoc return_await
      exec_def limit_def sort_qb_def filter_qb_def new_QueryBuilder_def slice_nonneg)

lemma pipeline_Returned:
  "fst (readFile st) = Returned xs \<Longrightarrow>
   fst (pipeline engine lt p key n st)
     = Returned (slice 0 n (engine (compare_by lt key Desc) (filter p xs)))"
  by (simp add: pipeline_def query_def await_assoc return_await await_readFile
      return_def exec_def limit_def sort_qb_def filter_qb_def new_QueryBuilder_def)

lemma pipeline_spec_Returned:
  "fst (readFile st) = Returned xs \<Longrightarrow>
   fst (pipeline_spec engine lt p key n st)
     = Returned (take (nat n) (engine (compare_by lt key Desc) (filter p xs)))"
  by (simp add: pipeline_spec_def find_store_def await_assoc return_await await_readFile
      return_def)

lemma strict_weak_irrefl:
  "strict_weak_on K lt \<Longrightarrow> a \<in> K \<Longrightarrow> \<not> lt a a"
  unfolding strict_weak_on_def by blast

lemma sample_strict_weak:
  "strict_weak_on ((\<lambda>x. field x ''rank'') ` set [task_a, task_c]) num_lt"
  by (simp add: strict_weak_on_def sample_ranks)

lemma sample_engine:
  "insertion_sort (compare_by num_lt ''rank'' Desc) [task_a, task_c] = [task_c, task_a]"
  by (simp add: insertion_sort_desc sample_sorted)

text \<open>
  Claim C1 as stated fails for a negative \<open>n\<close>: on the three sample records the chain
  with \<open>limit(-1)\<close> returns one record, and the first \<open>-1\<close> records of the sorted
  result of \<open>find\<close> are none.
\<close>

theorem pipeline_negative_counterexample:
  "fst (pipeline insertion_sort num_lt not_done ''rank'' (- 1) sample_state) = Returned [task_c]
   \<and> fst (pipeline_spec insertion_sort num_lt not_done ''rank'' (- 1) sample_state) = Returned []"
  by (simp only: pipeline_Returned [OF sample_read] pipeline_spec_Returned [OF sample_read]
      sample_not_done sample_engine)
    (simp add: slice_def)

text \<open>
  Claim C1, amended: for every snapshot of records, every predicate \<open>p\<close>, every field
  key \<open>k\<close> and every \<open>n \<ge> 0\<close>, the chain
  \<open>query().filter(p).sort(k, "desc").limit(n).exec()\<close> returns the same sequence as
  computing \<open>find(p)\<close> over that snapshot, sorting it by key \<open>k\<close> in descending order
  and taking its first \<open>n\<close> elements; the two fail alike when the file cannot be
  read.  This holds for every array sort \<open>engine\<close> and every comparison \<open><\<close>.  Where
  \<open><\<close> is a strict weak order on the keys of the records that \<open>p\<close> selects, and the
  engine returns the stable sorted rearrangement that ECMAScript then requires, the
  sequence is the first \<open>n\<close> records of the descending order of the key.
\<close>

theorem pipeline_refines:
  "0 \<le> n \<Longrightarrow>
     pipeline engine lt p key n st = pipeline_spec engine lt p key n st
     \<and> (fst (readFile st) = Returned xs
        \<and> strict_weak_on ((\<lambda>x. field x key) ` set (filter p xs)) lt
        \<and> stable_sorted (compare_by lt key Desc) (filter p xs)
             (engine (compare_by lt key Desc) (filter p xs))
        \<longrightarrow> fst (pipeline engine lt p key n st)
              = Returned (take (nat n) (descending_by lt key (filter p xs))))"
proof (intro conjI impI)
  assume n: "0 \<le> n"
  then show "pipeline engine lt p key n st = pipeline_spec engine lt p key n st"
    by (rule pipeline_composes)
  assume a: "fst (readFile st) = Returned xs
        \<and> strict_weak_on ((\<lambda>x. field x key) ` set (filter p xs)) lt
        \<and> stable_sorted (compare_by lt key Desc) (filter p xs)
             (engine (compare_by lt key Desc) (filter p xs))"
  then have sw: "strict_weak_on ((\<lambda>x. field x key) ` set (filter p xs)) lt" by simp
  have "\<forall>x \<in> set (filter p xs). \<not> lt (field x key) (field x key)"
  proof
    fix x assume "x \<in> set (filter p xs)"
    then have "field x key \<in> (\<lambda>x. field x key) ` set (filter p xs)" by (rule imageI)
    with sw show "\<not> lt (field x key) (field x key)" by (rule strict_weak_irrefl)
  qed
  with a have "engine (compare_by lt key Desc) (filter p xs) = descending_by lt key (filter p xs)"
    by (simp add: stable_sorted_unique)
  with a n show "fst (pipeline engine lt p key n st)
              = Returned (take (nat n) (descending_by lt key (filter p xs)))"
    by (simp add: pipeline_Returned slice_nonneg)
qed

theorem pipeline_refines_witness:
  "(0::int) \<le> 1
   \<and> fst (readFile sample_state) = Returned [task_a, task_b, task_c]
   \<and> strict_weak_on ((\<lambda>x. field x ''rank'') ` set [task_a, task_c]) num_lt
   \<and> stable_sorted (compare_by num_lt ''rank'' Desc) [task_a, task_c] [task_c, task_a]
   \<and> fst (pipeline insertion_sort num_lt not_done ''rank'' 1 sample_state) = Returned [task_c]
   \<and> fst (pipeline_spec insertion_sort num_lt not_done ''rank'' 1 sample_state)
       = Returned [task_c]"
proof -
  have n: "(0::int) \<le> 1" by simp
  have s: "stable_sorted (compare_by num_lt ''rank'' Desc) [task_a, task_c] [task_c, task_a]"
    using descending_by_stable_sorted [OF sample_strict_weak] by (simp only: sample_sorted)
  note t = pipeline_refines [OF n, of insertion_sort num_lt not_done "''rank''" sample_state
      "[task_a, task_b, task_c]"]
  from t have e: "pipeline insertion_sort num_lt not_done ''rank'' 1 sample_state
                = pipeline_spec insertion_sort num_lt not_done ''rank'' 1 sample_state"
    by (rule conjunct1)
  from sample_read sample_strict_weak s
  have h: "fst (readFile sample_state) = Returned [task_a, task_b, task_c]
        \<and> strict_weak_on ((\<lambda>x. field x ''rank'') ` set (filter not_done [task_a, task_b, task_c]))
            num_lt
        \<and> stable_sorted (compare_by num_lt ''rank'' Desc) (filter not_done [task_a, task_b, task_c])
             (insertion_sort (compare_by num_lt ''rank'' Desc)
               (filter not_done [task_a, task_b, task_c]))"
    by (simp only: sample_not_done sample_engine simp_thms)
  from t h
  have p: "fst (pipeline insertion_sort num_lt not_done ''rank'' 1 sample_state)
             = Returned (take (nat 1) (descending_by num_lt ''rank''
                 (filter not_done [task_a, task_b, task_c])))"
    by blast
  then have p': "fst (pipeline insertion_sort num_lt not_done ''rank'' 1 sample_state)
             = Returned [task_c]"
    by (simp only: sample_not_done sample_sorted) simp
  with e have q: "fst (pipeline_spec insertion_sort num_lt not_done ''rank'' 1 sample_state)
             = Returned [task_c]"
    by simp
  from n sample_read sample_strict_weak s p' q show ?thesis by (simp only: simp_thms)
qed

section \<open>create\<close>

text \<open>
  Claim C10: \<open>create\<close> validates its input before any file access.  For every input
  that fails schema validation, \<open>create\<close> raises the validation error and leaves the
  whole state as it was: the file system is not called, neither to read nor to
  write, and the stored collection is unchanged.
\<close>

theorem create_rejects_before_file_access:
  "parse schema input = Inl e \<Longrightarrow>
     create schema uuid input st = (Raised e, st)
     \<and> calls (snd (create schema uuid input st)) = calls st
     \<and> disk (snd (create schema uuid input st)) = disk st"
  by (simp add: create_def raise_def)

theorem create_rejects_before_file_access_witness:
  "parse title_schema task_x = Inl (ValidationError ''title'')
   \<and> create title_schema ''id-x'' task_x sample_state
       = (Raised (ValidationError ''title''), sample_state)"
  using create_rejects_before_file_access
    [of title_schema task_x "ValidationError ''title''" "''id-x''" sample_state]
  by (simp add: title_schema_def task_x_def)

lemma find_appended:
  "\<not> list_ex P xs \<Longrightarrow> P x \<Longrightarrow> List.find P (xs @ [x]) = Some x"
  by (induction xs) simp_all

text \<open>
  What \<open>create\<close> returns and what \<open>getById\<close> then reads: \<open>create\<close> returns the
  record it built in memory, and \<open>getById\<close> the record that \<open>JSON.parse\<close> makes of
  what \<open>JSON.stringify\<close> wrote of it.
\<close>

lemma create_Returned:
  assumes "parse schema input = Inr parsed"
    and "fst (readFile st) = Returned xs"
    and "idle (lock st)"
    and "write_fault st = None"
  shows "create schema uuid input st =
      (Returned (parsed(''id'' \<mapsto> JStr uuid)),
       st\<lparr>disk := Present (JSON_stringify (xs @ [parsed(''id'' \<mapsto> JStr uuid)])),
          calls := calls st @ [Fs_read, Fs_write]\<rparr>)"
  using assms
  by (simp add: create_def await_readFile Let_def await_writeFile_idle return_def readFile_snd)

lemma create_read_back:
  assumes "parse schema input = Inr parsed"
    and "fst (readFile st) = Returned xs"
    and "idle (lock st)"
    and "write_fault st = None"
  shows "fst (readFile (snd (create schema uuid input st)))
           = Returned (xs @ [parse_item (stringify_item (parsed(''id'' \<mapsto> JStr uuid)))])"
proof -
  from readFile_items [OF assms(2)]
  have "map parse_item (map stringify_item xs) = xs" by (induction xs) simp_all
  then show ?thesis
    by (simp add: create_Returned [OF assms] JSON_stringify_def readFile_Json_array)
qed

lemma dated_parse: "parse dated_schema dated_task = Inr dated_task"
  by (simp add: dated_schema_def dated_task_def)

lemma sample_no_d: "\<not> list_ex (id_is ''id-d'') [task_a, task_b, task_c]"
  by (simp add: sample_ids)

text \<open>
  Claim C2 as stated fails for a validated value that JSON does not carry.  The
  sample input passes \<open>dated_schema\<close>; \<open>create\<close> returns the record with the
  \<open>Date\<close>, and \<open>getById\<close> with the returned id returns a record whose \<open>due\<close> is the
  ISO string.
\<close>

theorem create_then_getById_counterexample:
  "parse dated_schema dated_task = Inr dated_task
   \<and> fst (create dated_schema ''id-d'' dated_task sample_state)
       = Returned [''title'' \<mapsto> JStr ''Task D'', ''due'' \<mapsto> JDate ''2026-01-01T00:00:00.000Z'',
                   ''id'' \<mapsto> JStr ''id-d'']
   \<and> fst (getById ''id-d'' (snd (create dated_schema ''id-d'' dated_task sample_state)))
       = Returned (Some [''title'' \<mapsto> JStr ''Task D'', ''due'' \<mapsto> JStr ''2026-01-01T00:00:00.000Z'',
                         ''id'' \<mapsto> JStr ''id-d''])
   \<and> [''title'' \<mapsto> JStr ''Task D'', ''due'' \<mapsto> JDate ''2026-01-01T00:00:00.000Z'',
        ''id'' \<mapsto> JStr ''id-d'']
       \<noteq> [''title'' \<mapsto> JStr ''Task D'', ''due'' \<mapsto> JStr ''2026-01-01T00:00:00.000Z'',
          ''id'' \<mapsto> JStr ''id-d'']"
proof -
  let ?new = "[''title'' \<mapsto> JStr ''Task D'', ''due'' \<mapsto> JDate ''2026-01-01T00:00:00.000Z'',
                   ''id'' \<mapsto> JStr ''id-d'']"
  let ?read = "[''title'' \<mapsto> JStr ''Task D'', ''due'' \<mapsto> JStr ''2026-01-01T00:00:00.000Z'',
                   ''id'' \<mapsto> JStr ''id-d'']"
  have n: "dated_task(''id'' \<mapsto> JStr ''id-d'') = ?new" by (simp add: dated_task_def)
  have 1: "fst (create dated_schema ''id-d'' dated_task sample_state) = Returned ?new"
    by (simp add: create_Returned [OF dated_parse sample_read sample_idle sample_no_fault])
      (simp add: dated_task_def)
  have j: "parse_item (stringify_item ?new) = ?read"
    by (rule ext) (simp add: stringify_item_def parse_item_def)
  have i: "id_is ''id-d'' ?read" by (simp add: id_is_def)
  have "fst (readFile (snd (create dated_schema ''id-d'' dated_task sample_state)))
          = Returned ([task_a, task_b, task_c] @ [?read])"
    using create_read_back [OF dated_parse sample_read sample_idle sample_no_fault, of "''id-d''"]
    by (simp only: n j)
  moreover have "List.find (id_is ''id-d'') ([task_a, task_b, task_c] @ [?read]) = Some ?read"
    using find_appended [of "id_is ''id-d''" "[task_a, task_b, task_c]" ?read] sample_no_d i
    by blast
  ultimately
  have 2: "fst (getById ''id-d'' (snd (create dated_schema ''id-d'' dated_task sample_state)))
                  = Returned (Some ?read)"
    by (simp only: getById_readFile)
  have 3: "?new \<noteq> ?read"
  proof
    assume "?new = ?read"
    then have "?new ''due'' = ?read ''due''" by (rule arg_cong)
    then show False by simp
  qed
  from dated_parse 1 2 3 show ?thesis by (simp only: simp_thms)
qed

text \<open>
  Claim C2, amended: for every input that passes full schema validation and whose
  validated field values are values of JSON (they come back from the file as they
  were written: no \<open>Date\<close>, no \<open>undefined\<close>, no non-finite number), \<open>create(input)\<close>
  followed by \<open>getById\<close> with the returned record's id returns a record equal to the
  validated input fields plus the assigned id, the assigned id being an id that no
  stored record has.  For every validated input, \<open>getById\<close> returns what
  \<open>JSON.parse\<close> makes of what \<open>JSON.stringify\<close> wrote of the returned record.  The
  call runs on a file that can be read (or is absent), with the lock idle and the
  file system accepting the write.
\<close>

theorem create_then_getById:
  assumes "parse schema input = Inr parsed"
    and "fst (readFile st) = Returned xs"
    and "\<not> list_ex (id_is uuid) xs"
    and "idle (lock st)"
    and "write_fault st = None"
  shows "fst (create schema uuid input st) = Returned (parsed(''id'' \<mapsto> JStr uuid))
    \<and> fst (getById uuid (snd (create schema uuid input st)))
         = Returned (Some (parse_item (stringify_item (parsed(''id'' \<mapsto> JStr uuid)))))
    \<and> ((\<forall>v \<in> ran parsed. json_safe v) \<longrightarrow>
         fst (getById uuid (snd (create schema uuid input st)))
           = Returned (Some (parsed(''id'' \<mapsto> JStr uuid))))"
proof -
  let ?new = "parsed(''id'' \<mapsto> JStr uuid)"
  let ?read = "parse_item (stringify_item ?new)"
  have c: "fst (create schema uuid input st) = Returned ?new"
    by (simp add: create_Returned [OF assms(1,2,4,5)])
  have i: "id_is uuid ?read"
    by (simp add: id_is_def parse_stringify_id)
  have f: "List.find (id_is uuid) (xs @ [?read]) = Some ?read"
    using find_appended [of "id_is uuid" xs ?read] assms(3) i by blast
  from create_read_back [OF assms(1,2,4,5), of uuid]
  have g: "fst (getById uuid (snd (create schema uuid input st))) = Returned (Some ?read)"
    by (simp only: getById_readFile f)
  have s: "(\<forall>v \<in> ran parsed. json_safe v) \<longrightarrow> ?read = ?new"
  proof
    assume "\<forall>v \<in> ran parsed. json_safe v"
    then have "parse_item (stringify_item parsed) = parsed" by (rule parse_stringify_safe)
    then show "?read = ?new" by (simp only: parse_stringify_id)
  qed
  from c g s show ?thesis by simp
qed

lemma title_parse_new: "parse title_schema new_task = Inr [''title'' \<mapsto> JStr ''Task N'']"
  by (simp add: title_schema_def new_task_def)

lemma title_new_safe: "\<forall>v \<in> ran [''title'' \<mapsto> JStr ''Task N'']. json_safe v"
  by (simp add: json_safe_def)

theorem create_then_getById_witness:
  "parse title_schema new_task = Inr [''title'' \<mapsto> JStr ''Task N'']
   \<and> ran [''title'' \<mapsto> JStr ''Task N''] = {JStr ''Task N''}
   \<and> json_safe (JStr ''Task N'')
   \<and> fst (create title_schema ''id-n'' new_task sample_state)
       = Returned [''title'' \<mapsto> JStr ''Task N'', ''id'' \<mapsto> JStr ''id-n'']
   \<and> fst (getById ''id-n'' (snd (create title_schema ''id-n'' new_task sample_state)))
       = Returned (Some [''title'' \<mapsto> JStr ''Task N'', ''id'' \<mapsto> JStr ''id-n''])"
proof -
  note t = create_then_getById
    [OF title_parse_new sample_read sample_no_n sample_idle sample_no_fault]
  from t have c: "fst (create title_schema ''id-n'' new_task sample_state)
       = Returned [''title'' \<mapsto> JStr ''Task N'', ''id'' \<mapsto> JStr ''id-n'']"
    by (rule conjunct1)
  from t title_new_safe
  have g: "fst (getById ''id-n'' (snd (create title_schema ''id-n'' new_task sample_state)))
       = Returned (Some [''title'' \<mapsto> JStr ''Task N'', ''id'' \<mapsto> JStr ''id-n''])"
    by blast
  have r: "ran [''title'' \<mapsto> JStr ''Task N''] = {JStr ''Task N''}" by simp
  have j: "json_safe (JStr ''Task N'')" by (simp add: json_safe_def)
  from title_parse_new r j c g show ?thesis by (intro conjI)
qed

text \<open>
  The id that \<open>crypto.randomUUID()\<close> yields is taken to be new.  \<open>getById\<close> returns
  the first record with the id: were the id that of a stored record, it would
  return that record.
\<close>

lemma create_repeated_id:
  "fst (getById ''id-a'' (snd (create title_schema ''id-a'' new_task sample_state)))
     = Returned (Some task_a)"
proof -
  from create_read_back [OF title_parse_new sample_read sample_idle sample_no_fault, of "''id-a''"]
  show ?thesis by (simp add: getById_readFile sample_ids)
qed

section \<open>update\<close>

text \<open>
  Claim C5: for every collection state and every id that matches no stored record,
  \<open>update(id, partialInput)\<close> returns absent (\<open>null\<close>) rather than raising an error,
  and the stored collection is unchanged afterwards: the call only reads the file.
\<close>

theorem update_missing_id:
  assumes "fst (readFile st) = Returned xs" and "\<not> list_ex (id_is i) xs"
  shows "update schema i updates st = (Returned None, st\<lparr>calls := calls st @ [Fs_read]\<rparr>)
    \<and> disk (snd (update schema i updates st)) = disk st
    \<and> fst (getAll (snd (update schema i updates st))) = Returned xs"
proof -
  have u: "update schema i updates st = (Returned None, st\<lparr>calls := calls st @ [Fs_read]\<rparr>)"
    using assms by (simp add: update_def await_readFile findIndex_none return_def readFile_snd)
  have "fst (readFile (st\<lparr>calls := calls st @ [Fs_read]\<rparr>)) = fst (readFile st)"
    by (rule readFile_same_disk) simp
  with u assms(1) show ?thesis by (simp add: getAll_def)
qed

theorem update_missing_id_witness:
  "fst (readFile sample_state) = Returned [task_a, task_b, task_c]
   \<and> \<not> list_ex (id_is ''id-z'') [task_a, task_b, task_c]
   \<and> update title_schema ''id-z'' [''title'' \<mapsto> JStr ''Z''] sample_state
       = (Returned None, sample_state\<lparr>calls := [Fs_read]\<rparr>)"
proof -
  from update_missing_id [OF sample_read sample_no_z, of title_schema "[''title'' \<mapsto> JStr ''Z'']"]
  have "update title_schema ''id-z'' [''title'' \<mapsto> JStr ''Z''] sample_state
       = (Returned None, sample_state\<lparr>calls := calls sample_state @ [Fs_read]\<rparr>)" by blast
  with sample_read sample_no_z show ?thesis by (simp add: sample_calls)
qed











section \<open>delete\<close>

lemma delete_absent:
  assumes "fst (readFile st) = Returned xs" and "\<not> list_ex (id_is i) xs"
  shows "delete i st = (Returned False, st\<lparr>calls := calls st @ [Fs_read]\<rparr>)"
proof -
  from assms(2) have "length (filter (\<lambda>x. \<not> id_is i x) xs) = length xs"
    by (simp add: length_filter_eq list_ex_iff)
  with assms(1) show ?thesis
    by (simp add: delete_def await_readFile return_def readFile_snd)
qed

lemma delete_present:
  assumes "fst (readFile st) = Returned xs" and "list_ex (id_is i) xs"
    and "idle (lock st)" and "write_fault st = None"
  shows "delete i st =
     (Returned True,
      st\<lparr>disk := Present (JSON_stringify (filter (\<lambda>x. \<not> id_is i x) xs)),
         calls := calls st @ [Fs_read, Fs_write]\<rparr>)"
proof -
  from assms(2) have ne: "length (filter (\<lambda>x. \<not> id_is i x) xs) \<noteq> length xs"
    by (simp add: length_filter_eq list_ex_iff)
  with assms(1,3,4) show ?thesis
    by (simp add: delete_def await_readFile await_writeFile_idle return_def readFile_snd)
qed

text \<open>Whenever \<open>delete\<close> returns, the file it leaves holds no record with the id.\<close>

lemma delete_Returned:
  assumes "delete i st = (Returned b, st')"
  shows "\<exists>ys. fst (readFile st') = Returned ys \<and> \<not> list_ex (id_is i) ys"
proof -
  from assms obtain xs st1 where r: "readFile st = (Returned xs, st1)"
    unfolding delete_def by (rule await_Returned_elim)
  then have rf: "fst (readFile st) = Returned xs" by simp
  show ?thesis
  proof (cases "list_ex (id_is i) xs")
    case False
    from delete_absent [OF rf False] assms have "st' = st\<lparr>calls := calls st @ [Fs_read]\<rparr>"
      by simp
    then have "disk st' = disk st" by simp
    then have "fst (readFile st') = fst (readFile st)"
      by (rule readFile_same_disk)
    with rf False show ?thesis by simp
  next
    case True
    let ?new = "filter (\<lambda>x. \<not> id_is i x) xs"
    from True have ne: "length ?new \<noteq> length xs"
      by (simp add: length_filter_eq list_ex_iff)
    have "delete i st = await (writeFile ?new) (\<lambda>u. return True) (snd (readFile st))"
      using rf ne by (simp add: delete_def await_readFile)
    with assms
    have w: "await (writeFile ?new) (\<lambda>u. return True) (snd (readFile st)) = (Returned b, st')"
      by simp
    from w obtain u st2 where w1: "writeFile ?new (snd (readFile st)) = (Returned u, st2)"
      and s: "return True st2 = (Returned b, st')"
      by (rule await_Returned_elim)
    from s have "st' = st2" by (simp add: return_def)
    with writeFile_Returned [OF w1] have d: "disk st' = Present (JSON_stringify ?new)" by simp
    from readFile_items [OF rf] have "\<forall>x \<in> set ?new. parse_item (stringify_item x) = x"
      by simp
    with d have "fst (readFile st') = Returned ?new" by (rule readFile_written)
    then show ?thesis by (simp add: list_ex_iff)
  qed
qed

text \<open>
  Claim C3: for every collection state and every id, \<open>delete(id)\<close> followed by
  \<open>getById(id)\<close> returns absent: whenever \<open>delete\<close> returns, in the state it leaves
  \<open>getById\<close> returns \<open>null\<close>; and when no record with that id exists, \<open>delete(id)\<close>
  returns false, only reads the file, and the stored collection (its records and
  their order) is exactly the same afterwards.  On a collection that can be read,
  with the lock idle and the file system accepting the write, \<open>delete\<close> does
  return, and its result tells whether a record had the id.
\<close>

theorem delete_then_getById:
  "(delete i st = (Returned b, st') \<longrightarrow> fst (getById i st') = Returned None)
   \<and> (fst (readFile st) = Returned xs \<and> \<not> list_ex (id_is i) xs \<longrightarrow>
        delete i st = (Returned False, st\<lparr>calls := calls st @ [Fs_read]\<rparr>)
        \<and> disk (snd (delete i st)) = disk st
        \<and> fst (getAll (snd (delete i st))) = Returned xs)
   \<and> (fst (readFile st) = Returned xs \<and> idle (lock st) \<and> write_fault st = None \<longrightarrow>
        fst (delete i st) = Returned (list_ex (id_is i) xs))"
proof (intro conjI impI)
  assume "delete i st = (Returned b, st')"
  from delete_Returned [OF this] show "fst (getById i st') = Returned None"
    by (auto simp add: getById_readFile find_None_iff_list_ex)
next
  assume a: "fst (readFile st) = Returned xs \<and> \<not> list_ex (id_is i) xs"
  then show d: "delete i st = (Returned False, st\<lparr>calls := calls st @ [Fs_read]\<rparr>)"
    by (simp add: delete_absent)
  then show "disk (snd (delete i st)) = disk st" by simp
  have "fst (readFile (st\<lparr>calls := calls st @ [Fs_read]\<rparr>)) = fst (readFile st)"
    by (rule readFile_same_disk) simp
  with a d show "fst (getAll (snd (delete i st))) = Returned xs" by (simp add: getAll_def)
next
  assume a: "fst (readFile st) = Returned xs \<and> idle (lock st) \<and> write_fault st = None"
  show "fst (delete i st) = Returned (list_ex (id_is i) xs)"
  proof (cases "list_ex (id_is i) xs")
    case True
    with a show ?thesis by (simp add: delete_present)
  next
    case False
    with a show ?thesis by (simp add: delete_absent)
  qed
qed

lemma sample_delete_b:
  "delete ''id-b'' sample_state =
     (Returned True,
      sample_state\<lparr>disk := Present (JSON_stringify [task_a, task_c]),
        calls := [Fs_read, Fs_write]\<rparr>)"
  using delete_present [OF sample_read sample_has_b sample_idle sample_no_fault]
  by (simp only: sample_without_b sample_calls append_Nil)

theorem delete_then_getById_witness:
  "fst (delete ''id-b'' sample_state) = Returned True
   \<and> fst (getById ''id-b'' (snd (delete ''id-b'' sample_state))) = Returned None
   \<and> fst (delete ''id-z'' sample_state) = Returned False
   \<and> disk (snd (delete ''id-z'' sample_state)) = disk sample_state
   \<and> fst (getAll (snd (delete ''id-z'' sample_state))) = Returned [task_a, task_b, task_c]"
proof -
  let ?st = "sample_state\<lparr>disk := Present (JSON_stringify [task_a, task_c]),
    calls := [Fs_read, Fs_write]\<rparr>"
  from delete_then_getById [of "''id-b''" sample_state True ?st] sample_delete_b
  have g: "fst (getById ''id-b'' ?st) = Returned None" by blast
  from delete_then_getById [of "''id-z''" sample_state _ _ "[task_a, task_b, task_c]"]
    sample_read sample_no_z
  have z: "delete ''id-z'' sample_state
             = (Returned False, sample_state\<lparr>calls := calls sample_state @ [Fs_read]\<rparr>)"
    and z2: "disk (snd (delete ''id-z'' sample_state)) = disk sample_state"
    and z3: "fst (getAll (snd (delete ''id-z'' sample_state))) = Returned [task_a, task_b, task_c]"
    by blast+
  have d1: "fst (delete ''id-b'' sample_state) = Returned True"
    and d2: "snd (delete ''id-b'' sample_state) = ?st"
    by (simp_all add: sample_delete_b)
  have z1: "fst (delete ''id-z'' sample_state) = Returned False" by (simp add: z)
  from g d1 d2 z1 z2 z3 show ?thesis by (simp only: simp_thms)
qed

end
